theory Spec2Isabelle
  imports Main "HOL-Library.AList" "HOL-Library.Sublist"
begin

section \<open>Util.resolveArgs of Morearty.js\<close>

text \<open>
  The development embeds \<^verbatim>\<open>src/Util.js\<close>: the private helpers \<^verbatim>\<open>isRequired\<close>,
  \<^verbatim>\<open>findTurningPoint\<close> and \<^verbatim>\<open>prepare\<close>, and the public \<^verbatim>\<open>resolveArgs\<close>.

  Modelling decisions.
  \<^item> Runtime values are the datatype \<open>jsval\<close>; the resolver only ever compares an argument
    with \<^verbatim>\<open>undefined\<close>, so numbers are carried as integers and objects as references.
  \<^item> A spec entry is a string, a function, or anything else (\<open>OtherSpec\<close>: a value that is
    neither, \<^verbatim>\<open>undefined\<close> included). A function spec returns a name, \<^verbatim>\<open>null\<close> or
    \<^verbatim>\<open>undefined\<close>, as the documentation comment of \<^verbatim>\<open>resolveArgs\<close> describes.
  \<^item> The result object is its prototype together with the list of its own properties.
    Assigning to a property replaces the value of an existing key in place and appends a
    new key, which is what \<open>AList.update\<close> does; assigning to \<^verbatim>\<open>__proto__\<close> reaches the
    accessor inherited from \<^verbatim>\<open>Object.prototype\<close> instead (see \<open>put\<close>). The list
    keeps the order of insertion; that JavaScript enumerates array-index names before the
    others is not modelled, and properties of arbitrary names are stated on the set of
    bindings, not on the order.
  \<^item> An object passed as an argument (\<open>JRef\<close>) is a plain object: its prototype chain ends
    in \<^verbatim>\<open>Object.prototype\<close> and holds no setter and no read-only property.
  \<^item> The only exception the function itself can raise is the \<^verbatim>\<open>TypeError\<close> of
    \<^verbatim>\<open>spec.charAt\<close> on a spec that is neither a string nor a function.
\<close>

subsection \<open>Values\<close>

datatype jsval = JUndefined | JNull | JBool bool | JNum int | JStr string | JRef nat

text \<open>What a spec function returns, and what the name of an optional spec is.\<close>

datatype name_val = NameStr string | NameNull | NameUndefined

datatype spec = StrSpec string | FunSpec "jsval \<Rightarrow> name_val" | OtherSpec

datatype error = TypeError

text \<open>
  An object: its own properties and its prototype. The literal \<^verbatim>\<open>{}\<close> has no property
  and the prototype \<^verbatim>\<open>Object.prototype\<close>.
\<close>

datatype prototype = ObjectPrototype | NullPrototype | PrototypeRef nat

record obj =
  own :: "(string \<times> jsval) list"
  proto :: prototype

definition new_object :: obj where
  "new_object = \<lparr>own = [], proto = ObjectPrototype\<rparr>"

text \<open>
  The assignment \<^verbatim>\<open>ob[key] = v\<close>. For every key but \<^verbatim>\<open>__proto__\<close> it defines or
  overwrites an own property. The key \<^verbatim>\<open>__proto__\<close> finds the accessor that
  \<^verbatim>\<open>Object.prototype\<close> defines, unless the prototype is \<^verbatim>\<open>null\<close>: its setter replaces
  the prototype when \<open>v\<close> is an object or \<^verbatim>\<open>null\<close> and does nothing otherwise; in no case
  does it create an own property.
\<close>

definition put :: "obj \<Rightarrow> string \<Rightarrow> jsval \<Rightarrow> obj" where
  "put ob key v =
     (if key = ''__proto__''
      then (case proto ob of
              NullPrototype \<Rightarrow> ob\<lparr>own := AList.update key v (own ob)\<rparr>
            | _ \<Rightarrow>
                (case v of
                   JRef a \<Rightarrow> ob\<lparr>proto := PrototypeRef a\<rparr>
                 | JNull \<Rightarrow> ob\<lparr>proto := NullPrototype\<rparr>
                 | _ \<Rightarrow> ob))
      else ob\<lparr>own := AList.update key v (own ob)\<rparr>)"

text \<open>Truthiness of a name: the empty string, \<^verbatim>\<open>null\<close> and \<^verbatim>\<open>undefined\<close> are falsy.\<close>

fun truthy :: "name_val \<Rightarrow> bool" where
  "truthy (NameStr s) = (s \<noteq> [])"
| "truthy NameNull = False"
| "truthy NameUndefined = False"

text \<open>The property key \<^verbatim>\<open>result[name]\<close> stores under.\<close>

fun to_key :: "name_val \<Rightarrow> string" where
  "to_key (NameStr s) = s"
| "to_key NameNull = ''null''"
| "to_key NameUndefined = ''undefined''"

text \<open>\<^verbatim>\<open>s.charAt(i)\<close> is the empty string out of range; \<^verbatim>\<open>s.substring(n)\<close>.\<close>

definition charAt :: "string \<Rightarrow> nat \<Rightarrow> string" where
  "charAt s i = (if i < length s then [s ! i] else [])"

definition substring :: "string \<Rightarrow> nat \<Rightarrow> string" where
  "substring s n = drop n s"

text \<open>\<^verbatim>\<open>arr[i]\<close> on a spec array: \<^verbatim>\<open>undefined\<close> out of range.\<close>

definition at :: "spec list \<Rightarrow> nat \<Rightarrow> spec" where
  "at arr i = (if i < length arr then arr ! i else OtherSpec)"

subsection \<open>Private helpers\<close>

fun isRequired :: "spec \<Rightarrow> bool" where
  "isRequired (StrSpec s) = (charAt s 0 \<noteq> ''?'')"
| "isRequired (FunSpec f) = False"
| "isRequired OtherSpec = False"

text \<open>The \<^verbatim>\<open>for\<close> loop of \<^verbatim>\<open>findTurningPoint\<close>, from index \<open>i\<close> on.\<close>

function findTurningPoint_loop :: "spec list \<Rightarrow> (spec \<Rightarrow> bool) \<Rightarrow> bool \<Rightarrow> nat \<Rightarrow> nat option" where
  "findTurningPoint_loop arr pred first i =
     (if i < length arr
      then (if pred (arr ! i) \<noteq> first then Some i
            else findTurningPoint_loop arr pred first (i + 1))
      else None)"
  by pat_completeness auto
termination
  by (relation "measure (\<lambda>(arr, pred, first, i). length arr - i)") auto

definition findTurningPoint :: "spec list \<Rightarrow> (spec \<Rightarrow> bool) \<Rightarrow> nat option" where
  "findTurningPoint arr pred = findTurningPoint_loop arr pred (pred (at arr 0)) 1"

text \<open>
  \<^verbatim>\<open>Array.prototype.slice(start, end)\<close> on integers. An index is taken relative to the
  length \<open>len\<close>: a negative one counts from the end, and both are clamped to the array;
  \<^verbatim>\<open>end\<close> defaults to the length.
\<close>

definition relative_index :: "int \<Rightarrow> int \<Rightarrow> int" where
  "relative_index len i = (if i < 0 then max (len + i) 0 else min i len)"

definition js_slice :: "'a list \<Rightarrow> int \<Rightarrow> int option \<Rightarrow> 'a list" where
  "js_slice arr start end =
     (let len = int (length arr);
          k = relative_index len start;
          final = (case end of None \<Rightarrow> len | Some e \<Rightarrow> relative_index len e)
      in take (nat (final - k)) (drop (nat k) arr))"

text \<open>\<^verbatim>\<open>arr.slice(splitAt).reverse().concat(arr.slice(0, splitAt))\<close>\<close>

definition prepare :: "'a list \<Rightarrow> int \<Rightarrow> 'a list" where
  "prepare arr splitAt = rev (js_slice arr splitAt None) @ js_slice arr 0 (Some splitAt)"

subsection \<open>resolveArgs\<close>

text \<open>
  Lines 164 to 171: the pair \<open>(preparedSpecs, preparedArgs)\<close>. The test
  \<^verbatim>\<open>!(turningPoint = findTurningPoint(...))\<close> holds for \<^verbatim>\<open>null\<close> and for \<open>0\<close>.
\<close>

definition prepared :: "jsval list \<Rightarrow> spec list \<Rightarrow> spec list \<times> jsval list" where
  "prepared args specs =
     (if isRequired (at specs 0) then (specs, args)
      else case findTurningPoint specs isRequired of
             None \<Rightarrow> (specs, args)
           | Some turningPoint \<Rightarrow>
               if turningPoint = 0 then (specs, args)
               else (prepare specs (int turningPoint),
                     prepare args (int (length args)
                                   - (int (length specs) - int turningPoint))))"

text \<open>The variables of the matching loop.\<close>

record state =
  specIndex :: nat
  argIndex :: nat
  result :: obj

text \<open>The key of \<^verbatim>\<open>result[spec] = arg\<close>; only reached for a string spec.\<close>

fun spec_key :: "spec \<Rightarrow> string" where
  "spec_key (StrSpec s) = s"
| "spec_key (FunSpec f) = []"
| "spec_key OtherSpec = []"

text \<open>
  \<^verbatim>\<open>typeof spec === 'function' ? spec(arg) : (spec.charAt(0) !== '?' ? spec : spec.substring(1))\<close>
\<close>

fun name_of :: "spec \<Rightarrow> jsval \<Rightarrow> error + name_val" where
  "name_of (FunSpec f) arg = Inr (f arg)"
| "name_of (StrSpec s) arg = Inr (NameStr (if charAt s 0 \<noteq> ''?'' then s else substring s 1))"
| "name_of OtherSpec arg = Inl TypeError"

text \<open>One iteration of the loop, with the increment \<^verbatim>\<open>specIndex++\<close> of its header.\<close>

definition body :: "spec list \<Rightarrow> jsval list \<Rightarrow> state \<Rightarrow> error + state" where
  "body preparedSpecs preparedArgs st =
     (let spec = preparedSpecs ! specIndex st; arg = preparedArgs ! argIndex st in
      if isRequired spec
      then Inr \<lparr>specIndex = specIndex st + 1, argIndex = argIndex st + 1,
                result = put (result st) (spec_key spec) arg\<rparr>
      else case name_of spec arg of
             Inl e \<Rightarrow> Inl e
           | Inr name \<Rightarrow>
               if truthy name \<or> arg = JUndefined
               then Inr \<lparr>specIndex = specIndex st + 1, argIndex = argIndex st + 1,
                         result = put (result st) (to_key name) arg\<rparr>
               else Inr \<lparr>specIndex = specIndex st + 1, argIndex = argIndex st,
                         result = result st\<rparr>)"

lemma body_specIndex: "body ps pa st = Inr st' \<Longrightarrow> specIndex st' = specIndex st + 1"
  by (auto simp: body_def Let_def split: if_splits sum.splits)

function loop :: "spec list \<Rightarrow> jsval list \<Rightarrow> state \<Rightarrow> error + state" where
  "loop preparedSpecs preparedArgs st =
     (if specIndex st < length preparedSpecs \<and> argIndex st < length preparedArgs
      then (case body preparedSpecs preparedArgs st of
              Inl e \<Rightarrow> Inl e
            | Inr st' \<Rightarrow> loop preparedSpecs preparedArgs st')
      else Inr st)"
  by pat_completeness auto
termination
  by (relation "measure (\<lambda>(ps, pa, st). length ps - specIndex st)")
     (auto dest: body_specIndex)

text \<open>
  \<open>var_args\<close> is \<open>None\<close> when the call has no argument after \<open>args\<close>
  (\<^verbatim>\<open>arguments.length > 1\<close> fails) and \<open>Some specs\<close> otherwise, \<open>specs\<close> being the array
  given or the rest of the argument list.
\<close>

definition resolveArgs :: "jsval list \<Rightarrow> spec list option \<Rightarrow> error + obj" where
  "resolveArgs args var_args =
     (case var_args of
        None \<Rightarrow> Inr new_object
      | Some specs \<Rightarrow>
          (case prepared args specs of
             (preparedSpecs, preparedArgs) \<Rightarrow>
               (case loop preparedSpecs preparedArgs
                       \<lparr>specIndex = 0, argIndex = 0, result = new_object\<rparr> of
                  Inl e \<Rightarrow> Inl e
                | Inr st \<Rightarrow> Inr (result st))))"

section \<open>The same code on a store\<close>

text \<open>
  JavaScript arrays and objects are references, and \<^verbatim>\<open>reverse\<close> works in place. To say
  what a call leaves untouched, the functions above are lifted to a store. A store
  component is the list of its cells; an address is an index into it, and allocation
  appends a cell, so a new address is one that no earlier reference can hold. The store is
  split by the type of the cells: arrays of spec entries, arrays (and array-likes) of
  values, and objects.
\<close>

record heap =
  spec_arrays :: "spec list list"
  val_arrays :: "jsval list list"
  objects :: "obj list"

definition alloc :: "'a list \<Rightarrow> 'a \<Rightarrow> 'a list \<times> nat" where
  "alloc cells x = (cells @ [x], length cells)"

text \<open>\<^verbatim>\<open>slice\<close> and \<^verbatim>\<open>concat\<close> return a new array; \<^verbatim>\<open>reverse\<close> overwrites its receiver.\<close>

definition slice_h :: "'a list list \<Rightarrow> nat \<Rightarrow> int \<Rightarrow> int option \<Rightarrow> 'a list list \<times> nat" where
  "slice_h arrays arr start end = alloc arrays (js_slice (arrays ! arr) start end)"

definition reverse_h :: "'a list list \<Rightarrow> nat \<Rightarrow> 'a list list \<times> nat" where
  "reverse_h arrays arr = (arrays[arr := rev (arrays ! arr)], arr)"

definition concat_h :: "'a list list \<Rightarrow> nat \<Rightarrow> nat \<Rightarrow> 'a list list \<times> nat" where
  "concat_h arrays arr other = alloc arrays (arrays ! arr @ arrays ! other)"

text \<open>
  \<^verbatim>\<open>arr.slice(splitAt).reverse().concat(arr.slice(0, splitAt))\<close>, in evaluation order.
\<close>

definition prepare_h :: "'a list list \<Rightarrow> nat \<Rightarrow> int \<Rightarrow> 'a list list \<times> nat" where
  "prepare_h arrays arr splitAt =
     (case slice_h arrays arr splitAt None of
        (arrays1, tail) \<Rightarrow>
          (case reverse_h arrays1 tail of
             (arrays2, reversed) \<Rightarrow>
               (case slice_h arrays2 arr 0 (Some splitAt) of
                  (arrays3, head) \<Rightarrow> concat_h arrays3 reversed head)))"

text \<open>
  The first parameter is a reference to an array or to an array-like \<^verbatim>\<open>arguments\<close>
  object; the specs come as a reference to an array or as the rest of the argument list
  (empty when the call has one argument only).
\<close>

datatype args_ref = ArgsArray nat | ArgsObject nat

datatype var_args = SpecsArray nat | SpecsRest "spec list"

fun address :: "args_ref \<Rightarrow> nat" where
  "address (ArgsArray a) = a"
| "address (ArgsObject a) = a"

text \<open>
  Line 160: \<^verbatim>\<open>Array.isArray(var_args) ? var_args : Array.prototype.slice.call(arguments, 1)\<close>
\<close>

fun specs_h :: "heap \<Rightarrow> var_args \<Rightarrow> heap \<times> nat" where
  "specs_h h (SpecsArray a) = (h, a)"
| "specs_h h (SpecsRest rest) =
     (case alloc (spec_arrays h) rest of (sa, a) \<Rightarrow> (h\<lparr>spec_arrays := sa\<rparr>, a))"

text \<open>Line 168: \<^verbatim>\<open>Array.isArray(args) ? args : Array.prototype.slice.call(args)\<close>\<close>

fun effectiveArgs_h :: "heap \<Rightarrow> args_ref \<Rightarrow> heap \<times> nat" where
  "effectiveArgs_h h (ArgsArray a) = (h, a)"
| "effectiveArgs_h h (ArgsObject a) =
     (case alloc (val_arrays h) (val_arrays h ! a) of (va, e) \<Rightarrow> (h\<lparr>val_arrays := va\<rparr>, e))"

text \<open>Lines 164 to 171; the result is the store with \<open>preparedSpecs\<close> and \<open>preparedArgs\<close>.\<close>

definition prepared_h :: "heap \<Rightarrow> args_ref \<Rightarrow> nat \<Rightarrow> heap \<times> nat \<times> nat" where
  "prepared_h h args specs =
     (if isRequired (at (spec_arrays h ! specs) 0) then (h, specs, address args)
      else case findTurningPoint (spec_arrays h ! specs) isRequired of
             None \<Rightarrow> (h, specs, address args)
           | Some turningPoint \<Rightarrow>
               if turningPoint = 0 then (h, specs, address args)
               else
                 (case effectiveArgs_h h args of
                    (h1, effectiveArgs) \<Rightarrow>
                      (case prepare_h (spec_arrays h1) specs (int turningPoint) of
                         (sa, preparedSpecs) \<Rightarrow>
                           (case prepare_h (val_arrays h1) effectiveArgs
                                   (int (length (val_arrays h1 ! effectiveArgs))
                                    - (int (length (spec_arrays h1 ! specs)) - int turningPoint)) of
                              (va, preparedArgs) \<Rightarrow>
                                (h1\<lparr>spec_arrays := sa, val_arrays := va\<rparr>,
                                 preparedSpecs, preparedArgs)))))"

text \<open>
  One iteration: it reads the two prepared arrays and the result object, and stores the
  result object back.
\<close>

definition body_h ::
  "heap \<Rightarrow> nat \<Rightarrow> nat \<Rightarrow> nat \<Rightarrow> nat \<Rightarrow> nat \<Rightarrow> error + heap \<times> nat \<times> nat" where
  "body_h h preparedSpecs preparedArgs res si ai =
     (case body (spec_arrays h ! preparedSpecs) (val_arrays h ! preparedArgs)
             \<lparr>specIndex = si, argIndex = ai, result = objects h ! res\<rparr> of
        Inl e \<Rightarrow> Inl e
      | Inr st \<Rightarrow> Inr (h\<lparr>objects := (objects h)[res := result st]\<rparr>, specIndex st, argIndex st))"

lemma body_h_specIndex:
  "body_h h ps pa res si ai = Inr (h', si', ai') \<Longrightarrow>
   si' = si + 1 \<and> spec_arrays h' = spec_arrays h \<and> val_arrays h' = val_arrays h"
  by (auto simp: body_h_def split: sum.splits dest: body_specIndex)

text \<open>The loop ends normally (\<open>None\<close>) or with the exception an iteration raised.\<close>

function loop_h ::
  "heap \<Rightarrow> nat \<Rightarrow> nat \<Rightarrow> nat \<Rightarrow> nat \<Rightarrow> nat \<Rightarrow> heap \<times> error option" where
  "loop_h h preparedSpecs preparedArgs res si ai =
     (if si < length (spec_arrays h ! preparedSpecs) \<and> ai < length (val_arrays h ! preparedArgs)
      then (case body_h h preparedSpecs preparedArgs res si ai of
              Inl e \<Rightarrow> (h, Some e)
            | Inr (h', si', ai') \<Rightarrow> loop_h h' preparedSpecs preparedArgs res si' ai')
      else (h, None))"
  by pat_completeness auto
termination
  by (relation "measure (\<lambda>(h, ps, pa, res, si, ai). length (spec_arrays h ! ps) - si)")
     (auto dest: body_h_specIndex)

text \<open>
  \<open>resolveArgs\<close> on the store: it returns the store after the call and the reference to
  the result object, or the exception.
\<close>

definition resolveArgs_h :: "heap \<Rightarrow> args_ref \<Rightarrow> var_args \<Rightarrow> heap \<times> (error + nat)" where
  "resolveArgs_h h args var_args =
     (case alloc (objects h) new_object of
        (objs, res) \<Rightarrow>
          (case var_args of
             SpecsRest [] \<Rightarrow> (h\<lparr>objects := objs\<rparr>, Inr res)
           | _ \<Rightarrow>
               (case specs_h (h\<lparr>objects := objs\<rparr>) var_args of
                  (h1, specs) \<Rightarrow>
                    (case prepared_h h1 args specs of
                       (h2, preparedSpecs, preparedArgs) \<Rightarrow>
                         (case loop_h h2 preparedSpecs preparedArgs res 0 0 of
                            (h3, Some e) \<Rightarrow> (h3, Inl e)
                          | (h3, None) \<Rightarrow> (h3, Inr res))))))"

text \<open>The spec list a call sees, as the argument of the function \<open>resolveArgs\<close> above.\<close>

fun specs_of :: "heap \<Rightarrow> var_args \<Rightarrow> spec list option" where
  "specs_of h (SpecsArray a) = Some (spec_arrays h ! a)"
| "specs_of h (SpecsRest []) = None"
| "specs_of h (SpecsRest (x # xs)) = Some (x # xs)"

text \<open>The references of a call point into the store.\<close>

fun valid_call :: "heap \<Rightarrow> args_ref \<Rightarrow> var_args \<Rightarrow> bool" where
  "valid_call h args (SpecsArray a) =
     (address args < length (val_arrays h) \<and> a < length (spec_arrays h))"
| "valid_call h args (SpecsRest rest) = (address args < length (val_arrays h))"

text \<open>Reading a binding off the outcome of a call.\<close>

definition bound_to :: "error + obj \<Rightarrow> string \<Rightarrow> jsval \<Rightarrow> bool" where
  "bound_to r k v = (case r of Inl e \<Rightarrow> False | Inr m \<Rightarrow> map_of (own m) k = Some v)"

section \<open>Properties\<close>

declare loop.simps [simp del] loop_h.simps [simp del]

subsection \<open>Slices, rotation and the turning point\<close>

lemma relative_index_bounds:
  "0 \<le> relative_index (int n) i \<and> relative_index (int n) i \<le> int n"
  by (simp add: relative_index_def)

lemma js_slice_from:
  "js_slice arr k None = drop (nat (relative_index (int (length arr)) k)) arr"
  using relative_index_bounds[of "length arr" k] by (simp add: js_slice_def Let_def)

lemma js_slice_upto:
  "js_slice arr 0 (Some k) = take (nat (relative_index (int (length arr)) k)) arr"
  by (simp add: js_slice_def Let_def relative_index_def)

lemma prepare_split:
  "prepare arr k = rev (drop (nat (relative_index (int (length arr)) k)) arr)
                   @ take (nat (relative_index (int (length arr)) k)) arr"
  by (simp add: prepare_def js_slice_from js_slice_upto)

lemma length_prepare: "length (prepare arr k) = length arr"
  by (simp add: prepare_split)

lemma set_prepare: "set (prepare arr k) = set arr"
proof -
  define j where "j = nat (relative_index (int (length arr)) k)"
  have "set (prepare arr k) = set (drop j arr) \<union> set (take j arr)"
    by (simp add: prepare_split j_def)
  also have "\<dots> = set (take j arr @ drop j arr)"
    by (simp only: set_append Un_commute)
  finally show ?thesis by simp
qed

lemma findTurningPoint_loop_Some:
  "findTurningPoint_loop arr pred first i = Some t \<Longrightarrow>
   i \<le> t \<and> t < length arr \<and> pred (arr ! t) \<noteq> first
   \<and> (\<forall>j. i \<le> j \<and> j < t \<longrightarrow> pred (arr ! j) = first)"
proof (induction arr pred first i rule: findTurningPoint_loop.induct)
  case (1 arr pred first i)
  show ?case
  proof (cases "i < length arr \<and> pred (arr ! i) = first")
    case True
    with 1 have *: "Suc i \<le> t \<and> t < length arr \<and> pred (arr ! t) \<noteq> first
        \<and> (\<forall>j. Suc i \<le> j \<and> j < t \<longrightarrow> pred (arr ! j) = first)"
      by (simp split: if_splits)
    have "pred (arr ! j) = first" if "i \<le> j" "j < t" for j
      using that * True by (cases "j = i") auto
    with * show ?thesis by auto
  next
    case False
    with "1.prems" show ?thesis by (auto split: if_splits)
  qed
qed

lemma findTurningPoint_Some:
  "findTurningPoint arr pred = Some t \<Longrightarrow> 1 \<le> t \<and> t < length arr"
  unfolding findTurningPoint_def by (drule findTurningPoint_loop_Some) simp

lemma prepared_rotated:
  assumes "\<not> isRequired (at specs 0)" and "findTurningPoint specs isRequired = Some t"
  shows "prepared args specs =
           (prepare specs (int t),
            prepare args (int (length args) - (int (length specs) - int t)))"
  using assms findTurningPoint_Some[OF assms(2)] by (simp add: prepared_def)

lemmas eval_defs =
  prepared_def findTurningPoint_def at_def charAt_def prepare_def js_slice_def
  relative_index_def

subsection \<open>Two concrete calls\<close>

text \<open>
  C1 (as amended). For the spec list \<open>[fn, 'b']\<close>, where \<open>fn\<close> returns \<open>'x'\<close> on a number
  and \<^verbatim>\<open>null\<close> otherwise, and the arguments \<open>['text', 2]\<close>, the list starts with a
  non-required entry and turns at index 1, so both lists are rotated: \<open>'b'\<close> is matched
  first, against the last argument. The call returns exactly the mapping that binds
  \<open>b\<close> to \<open>2\<close> (a plain object with this one property); \<open>fn\<close> then rejects \<open>'text'\<close>
  and binds nothing.
\<close>

theorem C1_predicate_then_required:
  "resolveArgs [JStr ''text'', JNum 2]
     (Some [FunSpec (\<lambda>v. case v of JNum n \<Rightarrow> NameStr ''x'' | _ \<Rightarrow> NameNull),
            StrSpec ''b''])
   = Inr \<lparr>own = [(''b'', JNum 2)], proto = ObjectPrototype\<rparr>"
  by code_simp

text \<open>The claim as first stated, that \<open>b\<close> is bound to \<open>'text'\<close>, fails on this call.\<close>

theorem C1_counterexample:
  "\<not> bound_to
       (resolveArgs [JStr ''text'', JNum 2]
          (Some [FunSpec (\<lambda>v. case v of JNum n \<Rightarrow> NameStr ''x'' | _ \<Rightarrow> NameNull),
                 StrSpec ''b'']))
       ''b'' (JStr ''text'')"
  by code_simp

text \<open>
  C2 (as amended). For the spec list \<open>['?a', '?b', 'c']\<close> and the arguments \<open>[1, 2]\<close> the
  turning point is index 2, and the call returns exactly the mapping that binds \<open>c\<close> to
  \<open>2\<close> and \<open>a\<close> to \<open>1\<close>; \<open>b\<close> is not bound.
\<close>

theorem C2_two_optional_then_required:
  "findTurningPoint [StrSpec ''?a'', StrSpec ''?b'', StrSpec ''c''] isRequired = Some 2
   \<and> resolveArgs [JNum 1, JNum 2] (Some [StrSpec ''?a'', StrSpec ''?b'', StrSpec ''c''])
     = Inr \<lparr>own = [(''c'', JNum 2), (''a'', JNum 1)], proto = ObjectPrototype\<rparr>"
  by code_simp

text \<open>The claim as first stated, that \<open>c\<close> is bound to \<open>1\<close>, fails on this call.\<close>

theorem C2_counterexample:
  "\<not> bound_to
       (resolveArgs [JNum 1, JNum 2] (Some [StrSpec ''?a'', StrSpec ''?b'', StrSpec ''c'']))
       ''c'' (JNum 1)"
  by code_simp

subsection \<open>The rotation\<close>

text \<open>
  C3 (as amended). For every spec list whose first entry is not required and that has a
  turning point \<open>t\<close>, the spec list the resolver processes is the segment from the turning
  point on, reversed, followed by the leading segment \<open>specs[0..t)\<close> in its own order. The
  argument list is reordered the same way about the index \<open>s\<close> that
  \<open>len(args) - (len(specs) - t)\<close> denotes as a slice index: \<open>args[s..]\<close> reversed, then
  \<open>args[0..s)\<close>. When the arguments are at least as many as the entries from the turning
  point on, \<open>s\<close> is \<open>len(args) - (len(specs) - t)\<close> itself.
\<close>

theorem C3_rotation_reverses_tail:
  assumes "\<not> isRequired (at specs 0)" and "findTurningPoint specs isRequired = Some t"
  shows "(let s = nat (relative_index (int (length args))
                        (int (length args) - (int (length specs) - int t)))
          in prepared args specs
               = (rev (drop t specs) @ take t specs, rev (drop s args) @ take s args)
             \<and> (length specs - t \<le> length args \<longrightarrow> s = length args - (length specs - t)))"
proof -
  from findTurningPoint_Some[OF assms(2)] have t: "1 \<le> t" "t < length specs" by simp_all
  have a: "prepare specs (int t) = rev (drop t specs) @ take t specs"
    using t by (simp add: prepare_split relative_index_def)
  have b: "nat (relative_index (int (length args))
                  (int (length args) - (int (length specs) - int t)))
           = length args - (length specs - t)"
    if "length specs - t \<le> length args"
    using that t by (simp add: relative_index_def) linarith
  show ?thesis
    using a b by (simp add: prepared_rotated[OF assms] Let_def prepare_split)
qed

text \<open>With two entries after the turning point the rotation is not order-preserving.\<close>

theorem C3_counterexample:
  "\<not> isRequired (at [StrSpec ''?a'', StrSpec ''b'', StrSpec ''c''] 0)
   \<and> findTurningPoint [StrSpec ''?a'', StrSpec ''b'', StrSpec ''c''] isRequired = Some 1
   \<and> fst (prepared [JNum 1, JNum 2, JNum 3] [StrSpec ''?a'', StrSpec ''b'', StrSpec ''c''])
     \<noteq> drop 1 [StrSpec ''?a'', StrSpec ''b'', StrSpec ''c'']
        @ take 1 [StrSpec ''?a'', StrSpec ''b'', StrSpec ''c'']"
  by (simp add: eval_defs)

theorem C3_witness:
  "prepared [JNum 1, JNum 2, JNum 3] [StrSpec ''?a'', StrSpec ''b'', StrSpec ''c'']
     = ([StrSpec ''c'', StrSpec ''b'', StrSpec ''?a''], [JNum 3, JNum 2, JNum 1])"
proof -
  have h1: "\<not> isRequired (at [StrSpec ''?a'', StrSpec ''b'', StrSpec ''c''] 0)"
    by (simp add: at_def charAt_def)
  have h2: "findTurningPoint [StrSpec ''?a'', StrSpec ''b'', StrSpec ''c''] isRequired = Some 1"
    by (simp add: findTurningPoint_def at_def charAt_def)
  show ?thesis
  using C3_rotation_reverses_tail[OF h1 h2, of "[JNum 1, JNum 2, JNum 3]"]
  by (simp add: relative_index_def)
qed

text \<open>
  C5 (as amended). When rotation applies, the argument list is split at index
  \<open>splitAt = len(args) - (len(specs) - turningPoint)\<close>. Provided the arguments are at least
  as many as the spec entries from the turning point on, the trailing slice that is moved
  to the front has size \<open>len(specs) - turningPoint\<close>, which is the count of spec entries
  moved to the front of the rotated spec list; the leading slice, moved to the end, has
  size \<open>len(args) - (len(specs) - turningPoint)\<close>, and \<open>turningPoint\<close> spec entries are moved
  to the end.
\<close>

theorem C5_split:
  assumes "\<not> isRequired (at specs 0)" and "findTurningPoint specs isRequired = Some t"
    and "length specs - t \<le> length args"
  shows "(let splitAt = int (length args) - (int (length specs) - int t) in
          prepared args specs
            = (rev (js_slice specs (int t) None) @ js_slice specs 0 (Some (int t)),
               rev (js_slice args splitAt None) @ js_slice args 0 (Some splitAt))
          \<and> length (js_slice args splitAt None) = length specs - t
          \<and> length (js_slice specs (int t) None) = length specs - t
          \<and> length (js_slice args 0 (Some splitAt)) = length args - (length specs - t)
          \<and> length (js_slice specs 0 (Some (int t))) = t)"
proof -
  from findTurningPoint_Some[OF assms(2)] have t: "1 \<le> t" "t < length specs" by simp_all
  have s: "nat (relative_index (int (length args))
                  (int (length args) - (int (length specs) - int t)))
           = length args - (length specs - t)"
    using assms(3) t by (simp add: relative_index_def) linarith
  have ts: "nat (relative_index (int (length specs)) (int t)) = t"
    using t by (simp add: relative_index_def)
  show ?thesis
    unfolding Let_def prepared_rotated[OF assms(1,2)] js_slice_from js_slice_upto s ts prepare_def
    using t assms(3) by simp
qed

text \<open>
  Three specs with turning point 2 and four arguments: the trailing slice has one
  element, not \<open>4 - (3 - 2) = 3\<close>, and two spec entries are moved to the end.
\<close>

theorem C5_counterexample:
  "findTurningPoint [StrSpec ''?a'', StrSpec ''?b'', StrSpec ''c''] isRequired = Some 2
   \<and> snd (prepared [JNum 1, JNum 2, JNum 3, JNum 4]
                    [StrSpec ''?a'', StrSpec ''?b'', StrSpec ''c''])
       = rev (js_slice [JNum 1, JNum 2, JNum 3, JNum 4] (4 - (3 - 2)) None)
         @ js_slice [JNum 1, JNum 2, JNum 3, JNum 4] 0 (Some (4 - (3 - 2)))
   \<and> length (js_slice [JNum 1, JNum 2, JNum 3, JNum 4] (4 - (3 - 2)) None)
       \<noteq> length [JNum 1, JNum 2, JNum 3, JNum 4]
          - (length [StrSpec ''?a'', StrSpec ''?b'', StrSpec ''c''] - 2)
   \<and> length (js_slice [JNum 1, JNum 2, JNum 3, JNum 4] (4 - (3 - 2)) None)
       \<noteq> length (js_slice [StrSpec ''?a'', StrSpec ''?b'', StrSpec ''c''] 0 (Some 2))"
  by (simp add: eval_defs)

theorem C5_witness:
  "prepared [JNum 1, JNum 2, JNum 3, JNum 4] [StrSpec ''?a'', StrSpec ''?b'', StrSpec ''c'']
     = ([StrSpec ''c'', StrSpec ''?a'', StrSpec ''?b''], [JNum 4, JNum 1, JNum 2, JNum 3])
   \<and> length (js_slice [JNum 1, JNum 2, JNum 3, JNum 4] 3 None) = 1"
proof -
  have h1: "\<not> isRequired (at [StrSpec ''?a'', StrSpec ''?b'', StrSpec ''c''] 0)"
    by (simp add: at_def charAt_def)
  have h2: "findTurningPoint [StrSpec ''?a'', StrSpec ''?b'', StrSpec ''c''] isRequired = Some 2"
    by (simp add: findTurningPoint_def at_def charAt_def)
  have h3: "length [StrSpec ''?a'', StrSpec ''?b'', StrSpec ''c''] - 2 \<le> length [JNum 1, JNum 2, JNum 3, JNum 4]"
    by simp
  show ?thesis
    using C5_split[OF h1 h2 h3]
    by (simp add: js_slice_def relative_index_def)
qed

subsection \<open>The matching loop\<close>

lemma put_ordinary:
  "key \<noteq> ''__proto__'' \<Longrightarrow> put ob key v = ob\<lparr>own := AList.update key v (own ob)\<rparr>"
  by (simp add: put_def)

lemma to_key_falsy: "\<not> truthy name \<Longrightarrow> to_key name \<noteq> ''__proto__''"
  by (cases name) auto

text \<open>
  C4 (as amended). Within the loop, when the current spec entry is a function and it
  returns a falsy name for the current argument, then: if the argument is not
  \<^verbatim>\<open>undefined\<close>, no binding is added and the argument cursor does not advance; if the
  argument is \<^verbatim>\<open>undefined\<close>, it is bound under the property key of the returned name and
  the argument cursor advances. Every iteration that completes advances the spec cursor
  by one.
\<close>

theorem C4_predicate_rejects:
  "(preparedSpecs ! specIndex st = FunSpec f
      \<and> \<not> truthy (f (preparedArgs ! argIndex st))
      \<and> preparedArgs ! argIndex st \<noteq> JUndefined
    \<longrightarrow> body preparedSpecs preparedArgs st
          = Inr \<lparr>specIndex = specIndex st + 1, argIndex = argIndex st, result = result st\<rparr>)
   \<and> (preparedSpecs ! specIndex st = FunSpec f
      \<and> \<not> truthy (f (preparedArgs ! argIndex st))
      \<and> preparedArgs ! argIndex st = JUndefined
    \<longrightarrow> body preparedSpecs preparedArgs st
          = Inr \<lparr>specIndex = specIndex st + 1, argIndex = argIndex st + 1,
                 result = (result st)\<lparr>own := AList.update (to_key (f JUndefined)) JUndefined
                                               (own (result st))\<rparr>\<rparr>)
   \<and> (\<forall>st'. body preparedSpecs preparedArgs st = Inr st'
          \<longrightarrow> specIndex st' = specIndex st + 1)"
  by (auto simp: body_def Let_def put_ordinary to_key_falsy split: if_splits sum.splits)

text \<open>
  A function spec that returns \<^verbatim>\<open>null\<close>, tried on the argument \<^verbatim>\<open>undefined\<close>: a binding
  is added under the key \<open>null\<close> and the argument cursor advances.
\<close>

theorem C4_counterexample:
  "\<not> truthy ((\<lambda>v. NameNull) JUndefined)
   \<and> body [FunSpec (\<lambda>v. NameNull)] [JUndefined] \<lparr>specIndex = 0, argIndex = 0, result = new_object\<rparr>
     = Inr \<lparr>specIndex = 1, argIndex = 1,
            result = \<lparr>own = [(''null'', JUndefined)], proto = ObjectPrototype\<rparr>\<rparr>
   \<and> resolveArgs [JUndefined] (Some [FunSpec (\<lambda>v. NameNull)])
     = Inr \<lparr>own = [(''null'', JUndefined)], proto = ObjectPrototype\<rparr>"
  by code_simp

theorem C4_witness:
  "body [FunSpec (\<lambda>v. NameNull), StrSpec ''?b''] [JNum 7]
        \<lparr>specIndex = 0, argIndex = 0, result = new_object\<rparr>
     = Inr \<lparr>specIndex = 1, argIndex = 0, result = new_object\<rparr>
   \<and> body [FunSpec (\<lambda>v. NameNull), StrSpec ''?b''] [JUndefined]
        \<lparr>specIndex = 0, argIndex = 0, result = new_object\<rparr>
     = Inr \<lparr>specIndex = 1, argIndex = 1,
            result = \<lparr>own = [(''null'', JUndefined)], proto = ObjectPrototype\<rparr>\<rparr>"
  using C4_predicate_rejects[of "[FunSpec (\<lambda>v. NameNull), StrSpec ''?b'']"
          "\<lparr>specIndex = 0, argIndex = 0, result = new_object\<rparr>" "\<lambda>v. NameNull" "[JNum 7]"]
        C4_predicate_rejects[of "[FunSpec (\<lambda>v. NameNull), StrSpec ''?b'']"
          "\<lparr>specIndex = 0, argIndex = 0, result = new_object\<rparr>" "\<lambda>v. NameNull" "[JUndefined]"]
  by (simp add: new_object_def)

subsection \<open>All-required spec lists\<close>

lemma update_fresh: "k \<notin> fst ` set al \<Longrightarrow> AList.update k v al = al @ [(k, v)]"
  by (induction al) auto

lemma zip_take_right: "length xs \<le> n \<Longrightarrow> zip xs (take n ys) = zip xs ys"
proof (induction xs arbitrary: n ys)
  case Nil
  then show ?case by simp
next
  case (Cons x xs)
  then show ?case by (cases n; cases ys) simp_all
qed

lemma zip_take_Suc:
  assumes "i < length names" "i < length args"
  shows "zip (take (Suc i) names) args = zip (take i names) args @ [(names ! i, args ! i)]"
proof -
  have "zip (take (Suc i) names) args = zip (take i names @ [names ! i]) args"
    using assms by (simp add: take_Suc_conv_app_nth)
  also have "\<dots> = zip (take i names) (take i args) @ zip [names ! i] (drop i args)"
    using assms by (simp add: zip_append1 min_def)
  also have "zip (take i names) (take i args) = zip (take i names) args"
    by (rule zip_take_right) simp
  also have "zip [names ! i] (drop i args) = [(names ! i, args ! i)]"
    using assms by (simp add: Cons_nth_drop_Suc[symmetric])
  finally show ?thesis .
qed

lemma loop_required:
  assumes req: "\<forall>s\<in>set names. isRequired (StrSpec s)" and dist: "distinct names"
    and len: "length names \<le> length args" and ord: "''__proto__'' \<notin> set names"
  shows "i \<le> length names \<Longrightarrow>
         loop (map StrSpec names) args
              \<lparr>specIndex = i, argIndex = i,
               result = \<lparr>own = zip (take i names) args, proto = ObjectPrototype\<rparr>\<rparr>
         = Inr \<lparr>specIndex = length names, argIndex = length names,
                result = \<lparr>own = zip names args, proto = ObjectPrototype\<rparr>\<rparr>"
proof (induction "length names - i" arbitrary: i)
  case 0
  then show ?case by (subst loop.simps) simp
next
  case (Suc n)
  then have i: "i < length names" "i < length args" using len by simp_all
  have fresh: "names ! i \<notin> fst ` set (zip (take i names) args)"
  proof
    assume "names ! i \<in> fst ` set (zip (take i names) args)"
    then have "names ! i \<in> set (take i names)" by (auto dest: set_zip_leftD)
    then obtain j where "j < i" "names ! j = names ! i"
      using i by (auto simp: in_set_conv_nth)
    with dist i show False by (auto simp: distinct_conv_nth)
  qed
  have key: "names ! i \<noteq> ''__proto__''" using ord i by (metis nth_mem)
  have b: "body (map StrSpec names) args
             \<lparr>specIndex = i, argIndex = i,
              result = \<lparr>own = zip (take i names) args, proto = ObjectPrototype\<rparr>\<rparr>
           = Inr \<lparr>specIndex = Suc i, argIndex = Suc i,
                  result = \<lparr>own = zip (take (Suc i) names) args, proto = ObjectPrototype\<rparr>\<rparr>"
    using i req fresh key by (simp add: body_def put_ordinary update_fresh zip_take_Suc)
  have "loop (map StrSpec names) args
              \<lparr>specIndex = i, argIndex = i,
               result = \<lparr>own = zip (take i names) args, proto = ObjectPrototype\<rparr>\<rparr>
        = loop (map StrSpec names) args
              \<lparr>specIndex = Suc i, argIndex = Suc i,
               result = \<lparr>own = zip (take (Suc i) names) args, proto = ObjectPrototype\<rparr>\<rparr>"
    using i by (subst loop.simps) (simp add: b)
  also have "\<dots> = Inr \<lparr>specIndex = length names, argIndex = length names,
                       result = \<lparr>own = zip names args, proto = ObjectPrototype\<rparr>\<rparr>"
    using Suc i by (intro Suc.hyps(1)) simp_all
  finally show ?case .
qed

lemma prepared_all_required:
  assumes "\<forall>s\<in>set names. isRequired (StrSpec s)"
  shows "prepared args (map StrSpec names) = (map StrSpec names, args)"
proof (cases names)
  case Nil
  then show ?thesis by (simp add: prepared_def at_def findTurningPoint_def)
next
  case (Cons n ns)
  with assms show ?thesis by (simp add: prepared_def at_def)
qed

text \<open>
  C6 (as amended). For a spec list of \<open>N\<close> pairwise distinct, non-empty names that do not
  begin with \<open>?\<close>, none of which is \<^verbatim>\<open>__proto__\<close>, and at least \<open>N\<close> arguments, the call
  returns a plain object whose own properties are exactly the bindings of the \<open>i\<close>-th name
  to the \<open>i\<close>-th argument for \<open>i < N\<close>, one property for each name; the arguments from
  position \<open>N\<close> on do not enter the result.
\<close>

theorem C6_all_required:
  assumes "\<forall>s\<in>set names. s \<noteq> [] \<and> hd s \<noteq> CHR ''?'' \<and> s \<noteq> ''__proto__''"
    and "distinct names" and "length names \<le> length args"
  shows "\<exists>r. resolveArgs args (Some (map StrSpec names)) = Inr r
           \<and> proto r = ObjectPrototype
           \<and> distinct (map fst (own r))
           \<and> set (own r) = set (zip names (take (length names) args))
           \<and> (\<forall>i<length names. map_of (own r) (names ! i) = Some (args ! i))"
proof -
  have req: "\<forall>s\<in>set names. isRequired (StrSpec s)"
    using assms(1) by (auto simp: charAt_def hd_conv_nth)
  have ord: "''__proto__'' \<notin> set names" using assms(1) by auto
  have r: "resolveArgs args (Some (map StrSpec names))
           = Inr \<lparr>own = zip names args, proto = ObjectPrototype\<rparr>"
    using loop_required[OF req assms(2,3) ord, of 0]
    by (simp add: resolveArgs_def prepared_all_required[OF req] new_object_def)
  have z: "zip names (take (length names) args) = zip names args"
    by (rule zip_take_right) simp
  have d: "distinct (map fst (zip names args))"
    using assms(2,3) by (simp add: map_fst_zip_take min_def)
  have "map_of (zip names args) (names ! i) = Some (args ! i)" if "i < length names" for i
  proof -
    have "map_of (zip names (take (length names) args)) (names ! i)
          = Some (take (length names) args ! i)"
      using that assms(2,3) by (intro map_of_zip_nth) simp_all
    with that show ?thesis by (simp add: z)
  qed
  with r z d show ?thesis by simp
qed

text \<open>
  The name \<^verbatim>\<open>__proto__\<close> meets the conditions of the claim as first stated, and the call
  binds it to nothing: the assignment reaches the inherited accessor, which ignores the
  number, and the object returned has no property.
\<close>

theorem C6_counterexample:
  "isRequired (StrSpec ''__proto__'')
   \<and> resolveArgs [JNum 1] (Some (map StrSpec [''__proto__'']))
     = Inr \<lparr>own = [], proto = ObjectPrototype\<rparr>
   \<and> \<not> bound_to (resolveArgs [JNum 1] (Some (map StrSpec [''__proto__'']))) ''__proto__'' (JNum 1)"
  by code_simp

theorem C6_witness:
  "\<exists>r. resolveArgs [JNum 1, JStr ''two'', JNull] (Some (map StrSpec [''a'', ''b''])) = Inr r
       \<and> proto r = ObjectPrototype
       \<and> set (own r) = {(''a'', JNum 1), (''b'', JStr ''two'')}"
proof -
  have h1: "\<forall>s\<in>set [''a'', ''b'']. s \<noteq> [] \<and> hd s \<noteq> CHR ''?'' \<and> s \<noteq> ''__proto__''"
    by simp
  have h2: "distinct [''a'', ''b'']" by simp
  have h3: "length [''a'', ''b''] \<le> length [JNum 1, JStr ''two'', JNull]" by simp
  show ?thesis using C6_all_required[OF h1 h2 h3] by auto
qed

subsection \<open>No error\<close>

lemma body_no_error:
  "preparedSpecs ! specIndex st \<noteq> OtherSpec \<Longrightarrow> \<exists>st'. body preparedSpecs preparedArgs st = Inr st'"
  by (cases "preparedSpecs ! specIndex st") (auto simp: body_def Let_def)

lemma loop_no_error:
  "OtherSpec \<notin> set ps \<Longrightarrow> \<exists>st'. loop ps pa st = Inr st'"
proof (induction ps pa st rule: loop.induct)
  case (1 ps pa st)
  show ?case
  proof (cases "specIndex st < length ps \<and> argIndex st < length pa")
    case True
    then have "ps ! specIndex st \<noteq> OtherSpec" using "1.prems" by (metis nth_mem)
    then obtain st' where b: "body ps pa st = Inr st'" using body_no_error by blast
    from "1.IH"[OF True b "1.prems"] obtain st'' where "loop ps pa st' = Inr st''" by blast
    with True b show ?thesis by (subst loop.simps) simp
  next
    case False
    then show ?thesis by (subst loop.simps) auto
  qed
qed

lemma loop_empty: "loop [] pa st = Inr st"
  by (subst loop.simps) simp

lemma prepared_Nil: "prepared args [] = ([], args)"
  by (simp add: prepared_def at_def findTurningPoint_def)

lemma set_fst_prepared: "set (fst (prepared args specs)) = set specs"
  by (auto simp: prepared_def set_prepare split: option.splits)

text \<open>
  C7. Called without specs or with an empty spec list, \<open>resolveArgs\<close> returns the empty
  mapping, whatever the arguments. And for spec lists of strings and functions, of any
  length against arguments of any length, the call returns a mapping and raises no error.
\<close>

theorem C7_no_error:
  "resolveArgs args None = Inr new_object
   \<and> resolveArgs args (Some []) = Inr new_object
   \<and> (OtherSpec \<notin> set specs \<longrightarrow> (\<exists>r. resolveArgs args (Some specs) = Inr r))"
proof -
  have "\<exists>r. resolveArgs args (Some specs) = Inr r" if "OtherSpec \<notin> set specs"
  proof -
    obtain ps pa where p: "prepared args specs = (ps, pa)" by (cases "prepared args specs")
    then have "set ps = set specs" using set_fst_prepared[of args specs] by simp
    with that obtain st' where "loop ps pa \<lparr>specIndex = 0, argIndex = 0, result = new_object\<rparr> = Inr st'"
      using loop_no_error[of ps pa] by blast
    with p show ?thesis by (simp add: resolveArgs_def)
  qed
  then show ?thesis by (simp add: resolveArgs_def prepared_Nil loop_empty)
qed

theorem C7_witness:
  "resolveArgs [JNum 1, JNum 2, JNum 3] (Some []) = Inr new_object
   \<and> (\<exists>r. resolveArgs [JNum 1] (Some [StrSpec ''?a'', StrSpec ''b'', StrSpec ''c'']) = Inr r)
   \<and> (\<exists>r. resolveArgs [JNum 1, JNum 2, JNum 3] (Some [StrSpec ''a'']) = Inr r)"
  using C7_no_error[of "[JNum 1, JNum 2, JNum 3]" "[]"]
        C7_no_error[of "[JNum 1]" "[StrSpec ''?a'', StrSpec ''b'', StrSpec ''c'']"]
        C7_no_error[of "[JNum 1, JNum 2, JNum 3]" "[StrSpec ''a'']"]
  by simp


subsection \<open>The size of the result\<close>

lemma length_update_le: "length (AList.update k v al) \<le> Suc (length al)"
  by (induction al) auto

lemma put_own:
  "own (put ob k v) = own ob \<or> own (put ob k v) = AList.update k v (own ob)"
  by (auto simp: put_def split: prototype.splits jsval.splits)

lemma length_put_le: "length (own (put ob k v)) \<le> Suc (length (own ob))"
  using put_own[of ob k v] length_update_le[of k v "own ob"] by auto

lemma distinct_put:
  "distinct (map fst (own ob)) \<Longrightarrow> distinct (map fst (own (put ob k v)))"
  using put_own[of ob k v] by (auto simp: distinct_update)

lemma body_step:
  "body ps pa st = Inr st' \<Longrightarrow>
   specIndex st' = specIndex st + 1
   \<and> (argIndex st' = argIndex st \<and> result st' = result st
      \<or> argIndex st' = argIndex st + 1
        \<and> (\<exists>k. result st' = put (result st) k (pa ! argIndex st)))"
  by (auto simp: body_def Let_def split: if_splits sum.splits)

lemma loop_inv:
  "loop ps pa st = Inr st' \<Longrightarrow> distinct (map fst (own (result st))) \<Longrightarrow>
   length (own (result st)) \<le> argIndex st \<Longrightarrow> argIndex st \<le> specIndex st \<Longrightarrow>
   argIndex st \<le> length pa \<Longrightarrow> specIndex st \<le> length ps \<Longrightarrow>
   distinct (map fst (own (result st'))) \<and> length (own (result st')) \<le> argIndex st'
   \<and> argIndex st' \<le> specIndex st' \<and> argIndex st' \<le> length pa \<and> specIndex st' \<le> length ps"
proof (induction ps pa st rule: loop.induct)
  case (1 ps pa st)
  show ?case
  proof (cases "specIndex st < length ps \<and> argIndex st < length pa")
    case False
    then have "st' = st" using "1.prems"(1) by (subst (asm) loop.simps) auto
    with "1.prems" show ?thesis by simp
  next
    case True
    then obtain st1 where b: "body ps pa st = Inr st1" and l: "loop ps pa st1 = Inr st'"
      using "1.prems"(1) by (subst (asm) loop.simps) (auto split: sum.splits)
    have "distinct (map fst (own (result st1))) \<and> length (own (result st1)) \<le> argIndex st1
          \<and> argIndex st1 \<le> specIndex st1 \<and> argIndex st1 \<le> length pa
          \<and> specIndex st1 \<le> length ps"
      using body_step[OF b] "1.prems"(2-) True
    proof (elim conjE disjE exE, goal_cases)
      case 1
      then show ?case by simp
    next
      case (2 k)
      have "length (own (put (result st) k (pa ! argIndex st))) \<le> Suc (length (own (result st)))"
        by (rule length_put_le)
      with 2 show ?case by (simp add: distinct_put)
    qed
    with "1.IH"[OF True b l] show ?thesis by simp
  qed
qed

text \<open>
  C10. The mapping a call returns has pairwise distinct keys, at most
  \<open>min(len(specs), len(args))\<close> of them. Each iteration of the matching loop moves the
  spec cursor by one; it either leaves the argument cursor and the result as they are, or
  moves the argument cursor by one and makes one assignment to the result, whose value is
  the argument at the cursor. An assignment binds its key to its value or leaves the
  properties as they are, so it adds at most one binding.
\<close>

theorem C10_at_most_min_keys:
  "(resolveArgs args (Some specs) = Inr r
      \<longrightarrow> distinct (map fst (own r))
          \<and> length (own r) \<le> min (length specs) (length args))
   \<and> (body ps pa st = Inr st'
      \<longrightarrow> specIndex st' = specIndex st + 1
          \<and> (argIndex st' = argIndex st \<and> result st' = result st
             \<or> argIndex st' = argIndex st + 1
               \<and> (\<exists>k. result st' = put (result st) k (pa ! argIndex st))))
   \<and> (own (put ob key v) = own ob \<or> own (put ob key v) = AList.update key v (own ob))
   \<and> length (own (put ob key v)) \<le> length (own ob) + 1"
proof -
  have "distinct (map fst (own r)) \<and> length (own r) \<le> min (length specs) (length args)"
    if r: "resolveArgs args (Some specs) = Inr r"
  proof -
    obtain ps' pa' where p: "prepared args specs = (ps', pa')" by (cases "prepared args specs")
    have len: "length ps' = length specs" "length pa' = length args"
      using p by (auto simp: prepared_def length_prepare split: if_splits option.splits)
    from r p obtain st1 where
      l: "loop ps' pa' \<lparr>specIndex = 0, argIndex = 0, result = new_object\<rparr> = Inr st1" and
      "r = result st1"
      by (auto simp: resolveArgs_def split: sum.splits)
    with loop_inv[OF l] len show ?thesis by (simp add: new_object_def)
  qed
  with body_step put_own[of ob key v] length_put_le[of ob key v] show ?thesis
    by (simp only: Suc_eq_plus1) blast
qed

theorem C10_witness:
  "resolveArgs [JNum 1, JNum 2] (Some [StrSpec ''?a'', StrSpec ''?b'', StrSpec ''c''])
     = Inr \<lparr>own = [(''c'', JNum 2), (''a'', JNum 1)], proto = ObjectPrototype\<rparr>
   \<and> length [(''c'', JNum 2), (''a'', JNum 1)]
       \<le> min (length [StrSpec ''?a'', StrSpec ''?b'', StrSpec ''c''])
              (length [JNum 1, JNum 2])
   \<and> body [FunSpec (\<lambda>v. NameNull), StrSpec ''b''] [JNum 7]
        \<lparr>specIndex = 0, argIndex = 0, result = new_object\<rparr>
       = Inr \<lparr>specIndex = 1, argIndex = 0, result = new_object\<rparr>"
proof -
  have e: "resolveArgs [JNum 1, JNum 2] (Some [StrSpec ''?a'', StrSpec ''?b'', StrSpec ''c''])
           = Inr \<lparr>own = [(''c'', JNum 2), (''a'', JNum 1)], proto = ObjectPrototype\<rparr>"
    by code_simp
  have b: "body [FunSpec (\<lambda>v. NameNull), StrSpec ''b''] [JNum 7]
        \<lparr>specIndex = 0, argIndex = 0, result = new_object\<rparr>
       = Inr \<lparr>specIndex = 1, argIndex = 0, result = new_object\<rparr>"
    by code_simp
  from C10_at_most_min_keys[of "[JNum 1, JNum 2]"
         "[StrSpec ''?a'', StrSpec ''?b'', StrSpec ''c'']"
         "\<lparr>own = [(''c'', JNum 2), (''a'', JNum 1)], proto = ObjectPrototype\<rparr>"
         "[FunSpec (\<lambda>v. NameNull), StrSpec ''b'']" "[JNum 7]"
         "\<lparr>specIndex = 0, argIndex = 0, result = new_object\<rparr>"
         "\<lparr>specIndex = 1, argIndex = 0, result = new_object\<rparr>"] e b
  show ?thesis by simp
qed

subsection \<open>The store: what a call allocates and what it leaves alone\<close>

lemma prepare_h_eq:
  assumes "a < length arrays"
  shows "prepare_h arrays a k
         = (arrays @ [rev (js_slice (arrays ! a) k None), js_slice (arrays ! a) 0 (Some k),
                      prepare (arrays ! a) k],
            length arrays + 2)"
  using assms
  by (simp add: prepare_h_def slice_h_def reverse_h_def concat_h_def alloc_def prepare_def
      nth_append)

lemma loop_h_refines:
  assumes "res < length (objects h)" and "loop_h h ps pa res si ai = (h', out)"
  shows "\<exists>m. h' = h\<lparr>objects := (objects h)[res := m]\<rparr>
           \<and> (case loop (spec_arrays h ! ps) (val_arrays h ! pa)
                       \<lparr>specIndex = si, argIndex = ai, result = objects h ! res\<rparr> of
                 Inl e \<Rightarrow> out = Some e
               | Inr st \<Rightarrow> out = None \<and> m = result st)"
  using assms
proof (induction h ps pa res si ai rule: loop_h.induct)
  case (1 h ps pa res si ai)
  let ?st = "\<lparr>specIndex = si, argIndex = ai, result = objects h ! res\<rparr>"
  show ?case
  proof (cases "si < length (spec_arrays h ! ps) \<and> ai < length (val_arrays h ! pa)")
    case False
    then have "h' = h" "out = None" using "1.prems"(2) by (auto simp: loop_h.simps[of h])
    moreover have "loop (spec_arrays h ! ps) (val_arrays h ! pa) ?st = Inr ?st"
      using False by (subst loop.simps) auto
    ultimately show ?thesis
      by (intro exI[of _ "objects h ! res"]) simp
  next
    case True
    show ?thesis
    proof (cases "body (spec_arrays h ! ps) (val_arrays h ! pa) ?st")
      case (Inl e)
      then have "h' = h" "out = Some e"
        using True "1.prems"(2) by (auto simp: loop_h.simps[of h] body_h_def)
      moreover have "loop (spec_arrays h ! ps) (val_arrays h ! pa) ?st = Inl e"
        using True Inl by (subst loop.simps) simp
      ultimately show ?thesis
        by (intro exI[of _ "objects h ! res"]) simp
    next
      case (Inr st1)
      define h1 where "h1 = h\<lparr>objects := (objects h)[res := result st1]\<rparr>"
      have bh: "body_h h ps pa res si ai = Inr (h1, specIndex st1, argIndex st1)"
        using Inr by (simp add: body_h_def h1_def)
      have l1: "loop_h h1 ps pa res (specIndex st1) (argIndex st1) = (h', out)"
        using True bh "1.prems"(2) by (simp add: loop_h.simps[of h])
      have r1: "res < length (objects h1)" using "1.prems"(1) by (simp add: h1_def)
      from "1.IH"[OF True bh refl refl r1 l1]
      obtain m where m: "h' = h1\<lparr>objects := (objects h1)[res := m]\<rparr>"
        "(case loop (spec_arrays h1 ! ps) (val_arrays h1 ! pa)
                 \<lparr>specIndex = specIndex st1, argIndex = argIndex st1, result = objects h1 ! res\<rparr> of
            Inl e \<Rightarrow> out = Some e | Inr st \<Rightarrow> out = None \<and> m = result st)"
        by blast
      have st1: "\<lparr>specIndex = specIndex st1, argIndex = argIndex st1, result = objects h1 ! res\<rparr> = st1"
        using "1.prems"(1) by (simp add: h1_def)
      have "loop (spec_arrays h ! ps) (val_arrays h ! pa) ?st
            = loop (spec_arrays h ! ps) (val_arrays h ! pa) st1"
        using True Inr by (subst loop.simps) simp
      moreover have "spec_arrays h1 = spec_arrays h" "val_arrays h1 = val_arrays h"
        "h1\<lparr>objects := (objects h1)[res := m]\<rparr> = h\<lparr>objects := (objects h)[res := m]\<rparr>"
        by (simp_all add: h1_def)
      ultimately show ?thesis
        using m st1 by (intro exI[of _ m]) simp
    qed
  qed
qed


lemma effectiveArgs_h_eq:
  assumes "address args < length (val_arrays h)" and "effectiveArgs_h h args = (h1, e)"
  shows "spec_arrays h1 = spec_arrays h \<and> objects h1 = objects h
       \<and> prefix (val_arrays h) (val_arrays h1) \<and> e < length (val_arrays h1)
       \<and> val_arrays h1 ! e = val_arrays h ! address args"
  using assms by (cases args) (auto simp: alloc_def nth_append)

lemma specs_h_eq:
  assumes "valid_call h args var_args" and "specs_h h var_args = (h1, specs)"
    and "var_args \<noteq> SpecsRest []"
  shows "val_arrays h1 = val_arrays h \<and> objects h1 = objects h
       \<and> prefix (spec_arrays h) (spec_arrays h1) \<and> specs < length (spec_arrays h1)
       \<and> specs_of h var_args = Some (spec_arrays h1 ! specs)"
proof (cases var_args)
  case (SpecsArray a)
  with assms show ?thesis by auto
next
  case (SpecsRest rest)
  with assms(3) obtain x xs where "rest = x # xs" by (cases rest) auto
  with SpecsRest assms(2) show ?thesis by (auto simp: alloc_def)
qed

lemma prepared_h_refines:
  assumes "specs < length (spec_arrays h)" and "address args < length (val_arrays h)"
    and "prepared_h h args specs = (h', ps, pa)"
  shows "prefix (spec_arrays h) (spec_arrays h') \<and> prefix (val_arrays h) (val_arrays h')
       \<and> objects h' = objects h
       \<and> (spec_arrays h' ! ps, val_arrays h' ! pa)
         = prepared (val_arrays h ! address args) (spec_arrays h ! specs)"
proof (cases "isRequired (at (spec_arrays h ! specs) 0)
              \<or> findTurningPoint (spec_arrays h ! specs) isRequired = None")
  case True
  then have "prepared_h h args specs = (h, specs, address args)"
    by (auto simp: prepared_h_def)
  moreover have "prepared (val_arrays h ! address args) (spec_arrays h ! specs)
                 = (spec_arrays h ! specs, val_arrays h ! address args)"
    using True by (auto simp: prepared_def)
  ultimately show ?thesis using assms(3) by simp
next
  case False
  then obtain t where t: "findTurningPoint (spec_arrays h ! specs) isRequired = Some t"
    and nr: "\<not> isRequired (at (spec_arrays h ! specs) 0)" by auto
  from findTurningPoint_Some[OF t] have t0: "t \<noteq> 0" by simp
  obtain h1 e where e: "effectiveArgs_h h args = (h1, e)" by (cases "effectiveArgs_h h args")
  note e1 = effectiveArgs_h_eq[OF assms(2) e]
  let ?k = "int (length (val_arrays h ! address args))
            - (int (length (spec_arrays h ! specs)) - int t)"
  have "prepared_h h args specs
        = (h1\<lparr>spec_arrays := fst (prepare_h (spec_arrays h) specs (int t)),
               val_arrays := fst (prepare_h (val_arrays h1) e ?k)\<rparr>,
           snd (prepare_h (spec_arrays h) specs (int t)),
           snd (prepare_h (val_arrays h1) e ?k))"
    using t nr t0 e e1 by (simp add: prepared_h_def split: prod.splits)
  with assms(3) have h': "h' = h1\<lparr>spec_arrays := fst (prepare_h (spec_arrays h) specs (int t)),
               val_arrays := fst (prepare_h (val_arrays h1) e ?k)\<rparr>"
    and ps: "ps = snd (prepare_h (spec_arrays h) specs (int t))"
    and pa: "pa = snd (prepare_h (val_arrays h1) e ?k)" by simp_all
  have e_lt: "e < length (val_arrays h1)" using e1 by simp
  have "prefix (val_arrays h1) (val_arrays h')"
    unfolding h' by (simp add: prepare_h_eq[OF e_lt])
  then have pv: "prefix (val_arrays h) (val_arrays h')"
    using e1 prefix_order.trans by blast
  have psp: "prefix (spec_arrays h) (spec_arrays h')"
    unfolding h' by (simp add: prepare_h_eq[OF assms(1)])
  have c1: "spec_arrays h' ! ps = prepare (spec_arrays h ! specs) (int t)"
    unfolding h' ps by (simp add: prepare_h_eq[OF assms(1)] nth_append)
  have c2: "val_arrays h' ! pa = prepare (val_arrays h ! address args) ?k"
    unfolding h' pa using e1 by (simp add: prepare_h_eq[OF e_lt] nth_append)
  have "objects h' = objects h" unfolding h' using e1 by simp
  then show ?thesis
    using pv psp c1 c2 by (simp add: prepared_rotated[OF nr t])
qed


lemma specs_of_objects [simp]: "specs_of (h\<lparr>objects := objs\<rparr>) var_args = specs_of h var_args"
  by (cases "(h, var_args)" rule: specs_of.cases) simp_all

lemma valid_call_objects [simp]:
  "valid_call (h\<lparr>objects := objs\<rparr>) args var_args = valid_call h args var_args"
  by (cases var_args) simp_all

lemma resolveArgs_h_refines:
  assumes "valid_call h args var_args" and "resolveArgs_h h args var_args = (h', out)"
  shows "prefix (spec_arrays h) (spec_arrays h') \<and> prefix (val_arrays h) (val_arrays h')
       \<and> (\<exists>m. objects h' = objects h @ [m]
              \<and> (case resolveArgs (val_arrays h ! address args) (specs_of h var_args) of
                    Inl e \<Rightarrow> out = Inl e
                  | Inr r \<Rightarrow> out = Inr (length (objects h)) \<and> m = r))"
proof (cases "var_args = SpecsRest []")
  case True
  with assms(2) show ?thesis
    by (auto simp: resolveArgs_h_def alloc_def resolveArgs_def)
next
  case False
  define h0 where "h0 = h\<lparr>objects := objects h @ [new_object]\<rparr>"
  define res where "res = length (objects h)"
  obtain h1 specs where s: "specs_h h0 var_args = (h1, specs)" by (cases "specs_h h0 var_args")
  obtain h2 ps pa where p: "prepared_h h1 args specs = (h2, ps, pa)"
    by (cases "prepared_h h1 args specs")
  obtain h3 e where l: "loop_h h2 ps pa res 0 0 = (h3, e)"
    by (cases "loop_h h2 ps pa res 0 0")
  have unfold: "resolveArgs_h h args var_args
                = (case e of Some x \<Rightarrow> (h3, Inl x) | None \<Rightarrow> (h3, Inr res))"
  proof (cases var_args)
    case (SpecsArray a)
    then show ?thesis
      using s p l by (simp add: resolveArgs_h_def alloc_def h0_def res_def split: option.splits)
  next
    case (SpecsRest rest)
    with False obtain x xs where "rest = x # xs" by (cases rest) auto
    with SpecsRest show ?thesis
      using s p l by (simp add: resolveArgs_h_def alloc_def h0_def res_def split: option.splits)
  qed
  have v0: "valid_call h0 args var_args" using assms(1) by (simp add: h0_def)
  note s1 = specs_h_eq[OF v0 s False]
  have a1: "address args < length (val_arrays h1)"
    using assms(1) s1 by (cases var_args) (simp_all add: h0_def)
  from s1 have sl: "specs < length (spec_arrays h1)" by simp
  note p1 = prepared_h_refines[OF sl a1 p]
  have r2: "res < length (objects h2)" using p1 s1 by (simp add: h0_def res_def)
  from loop_h_refines[OF r2 l] obtain m where
    h3: "h3 = h2\<lparr>objects := (objects h2)[res := m]\<rparr>" and
    m: "(case loop (spec_arrays h2 ! ps) (val_arrays h2 ! pa)
                \<lparr>specIndex = 0, argIndex = 0, result = objects h2 ! res\<rparr> of
           Inl x \<Rightarrow> e = Some x | Inr st \<Rightarrow> e = None \<and> m = result st)"
    by blast
  have o2: "objects h2 = objects h @ [new_object]" using p1 s1 by (simp add: h0_def)
  have o3: "objects h3 = objects h @ [m]" by (simp add: h3 o2 res_def)
  have so: "specs_of h var_args = Some (spec_arrays h1 ! specs)"
    using s1 by (simp add: h0_def)
  have va: "val_arrays h1 ! address args = val_arrays h ! address args"
    using s1 by (simp add: h0_def)
  have pre: "prepared (val_arrays h ! address args) (spec_arrays h1 ! specs)
             = (spec_arrays h2 ! ps, val_arrays h2 ! pa)"
    using p1 va by simp
  have ra: "resolveArgs (val_arrays h ! address args) (specs_of h var_args)
            = (case loop (spec_arrays h2 ! ps) (val_arrays h2 ! pa)
                      \<lparr>specIndex = 0, argIndex = 0, result = new_object\<rparr> of
                 Inl x \<Rightarrow> Inl x | Inr st \<Rightarrow> Inr (result st))"
    by (simp add: resolveArgs_def so pre)
  have init: "objects h2 ! res = new_object" by (simp add: o2 res_def)
  have px: "prefix (spec_arrays h) (spec_arrays h')"
  proof -
    have "prefix (spec_arrays h) (spec_arrays h1)" using s1 by (simp add: h0_def)
    moreover have "prefix (spec_arrays h1) (spec_arrays h3)" using p1 by (simp add: h3)
    moreover have "h' = h3" using assms(2) unfold by (simp split: option.splits)
    ultimately show ?thesis using prefix_order.trans by blast
  qed
  have pv: "prefix (val_arrays h) (val_arrays h')"
  proof -
    have "val_arrays h1 = val_arrays h" using s1 by (simp add: h0_def)
    moreover have "prefix (val_arrays h1) (val_arrays h3)" using p1 by (simp add: h3)
    moreover have "h' = h3" using assms(2) unfold by (simp split: option.splits)
    ultimately show ?thesis by simp
  qed
  have "h' = h3" using assms(2) unfold by (simp split: option.splits)
  moreover have "case resolveArgs (val_arrays h ! address args) (specs_of h var_args) of
                    Inl x \<Rightarrow> out = Inl x
                  | Inr r \<Rightarrow> out = Inr (length (objects h)) \<and> m = r"
  proof -
    have m': "(case loop (spec_arrays h2 ! ps) (val_arrays h2 ! pa)
                      \<lparr>specIndex = 0, argIndex = 0, result = new_object\<rparr> of
                 Inl x \<Rightarrow> e = Some x | Inr st \<Rightarrow> e = None \<and> m = result st)"
      using m by (simp add: init)
    have out: "out = (case e of Some x \<Rightarrow> Inl x | None \<Rightarrow> Inr (length (objects h)))"
      using assms(2) unfold by (simp add: res_def split: option.splits)
    show ?thesis
      using m' by (simp add: ra out split: sum.splits)
  qed
  ultimately show ?thesis using px pv o3 by blast
qed


lemma prefix_nth: "prefix xs ys \<Longrightarrow> i < length xs \<Longrightarrow> ys ! i = xs ! i"
  by (auto simp: prefix_def nth_append)

lemma valid_call_prefix:
  assumes "valid_call h args var_args"
    and "prefix (spec_arrays h) (spec_arrays h')" and "prefix (val_arrays h) (val_arrays h')"
  shows "valid_call h' args var_args
       \<and> val_arrays h' ! address args = val_arrays h ! address args
       \<and> specs_of h' var_args = specs_of h var_args"
proof (cases var_args)
  case (SpecsArray a)
  with assms show ?thesis
    using prefix_length_le[OF assms(2)] prefix_length_le[OF assms(3)]
    by (auto simp: prefix_nth)
next
  case (SpecsRest rest)
  with assms show ?thesis
    using prefix_length_le[OF assms(3)] by (cases rest) (auto simp: prefix_nth)
qed

text \<open>
  C9. A call leaves its inputs as they were: after it, the array (or \<^verbatim>\<open>arguments\<close> object)
  behind \<open>args\<close> and the spec list hold the same elements. More generally every array and
  object that existed before the call is unchanged, since the store only grows: the
  slices, the reversal in place and the concatenation of \<^verbatim>\<open>prepare\<close> all work on arrays
  allocated during the call. The object returned is allocated by the call: its address is
  not an address of the store before the call.
\<close>

theorem C9_inputs_unchanged:
  assumes "valid_call h args var_args" and "resolveArgs_h h args var_args = (h', out)"
  shows "val_arrays h' ! address args = val_arrays h ! address args
       \<and> specs_of h' var_args = specs_of h var_args
       \<and> prefix (spec_arrays h) (spec_arrays h')
       \<and> prefix (val_arrays h) (val_arrays h')
       \<and> prefix (objects h) (objects h')
       \<and> (\<forall>r. out = Inr r \<longrightarrow> length (objects h) \<le> r \<and> r < length (objects h'))"
proof -
  from resolveArgs_h_refines[OF assms] obtain m where
    p1: "prefix (spec_arrays h) (spec_arrays h')" and
    p2: "prefix (val_arrays h) (val_arrays h')" and
    o: "objects h' = objects h @ [m]" and
    r: "(case resolveArgs (val_arrays h ! address args) (specs_of h var_args) of
           Inl e \<Rightarrow> out = Inl e | Inr r \<Rightarrow> out = Inr (length (objects h)) \<and> m = r)"
    by blast
  have "\<forall>r. out = Inr r \<longrightarrow> length (objects h) \<le> r \<and> r < length (objects h')"
    using r o by (auto split: sum.splits)
  with valid_call_prefix[OF assms(1) p1 p2] p1 p2 o show ?thesis by simp
qed

theorem C9_witness:
  "val_arrays (fst (resolveArgs_h
       \<lparr>spec_arrays = [], val_arrays = [[JNum 1, JNum 2]], objects = []\<rparr>
       (ArgsArray 0) (SpecsRest [StrSpec ''?a'', StrSpec ''?b'', StrSpec ''c'']))) ! 0
     = [JNum 1, JNum 2]
   \<and> val_arrays (fst (resolveArgs_h
       \<lparr>spec_arrays = [], val_arrays = [[JNum 1, JNum 2]], objects = []\<rparr>
       (ArgsArray 0) (SpecsRest [StrSpec ''?a'', StrSpec ''?b'', StrSpec ''c''])))
     = [[JNum 1, JNum 2], [JNum 2], [JNum 1], [JNum 2, JNum 1]]
   \<and> snd (resolveArgs_h
       \<lparr>spec_arrays = [], val_arrays = [[JNum 1, JNum 2]], objects = []\<rparr>
       (ArgsArray 0) (SpecsRest [StrSpec ''?a'', StrSpec ''?b'', StrSpec ''c''])) = Inr 0"
proof -
  let ?h = "\<lparr>spec_arrays = [], val_arrays = [[JNum 1, JNum 2]], objects = []\<rparr>"
  let ?v = "SpecsRest [StrSpec ''?a'', StrSpec ''?b'', StrSpec ''c'']"
  have v: "valid_call ?h (ArgsArray 0) ?v" by simp
  have c: "resolveArgs_h ?h (ArgsArray 0) ?v
           = (fst (resolveArgs_h ?h (ArgsArray 0) ?v), snd (resolveArgs_h ?h (ArgsArray 0) ?v))"
    by simp
  have e: "val_arrays (fst (resolveArgs_h ?h (ArgsArray 0) ?v))
             = [[JNum 1, JNum 2], [JNum 2], [JNum 1], [JNum 2, JNum 1]]"
     "snd (resolveArgs_h ?h (ArgsArray 0) ?v) = Inr 0"
    by code_simp+
  from C9_inputs_unchanged[OF v c] e show ?thesis by simp
qed

text \<open>
  C8. Two calls in a row on the same arguments and specs: when the first returns a
  mapping so does the second, the two are different objects with the same properties,
  and these are the properties \<open>resolveArgs\<close> computes from the contents of the inputs; when the first raises, the second raises the same exception. Spec
  functions are functions of their argument alone.
\<close>

theorem C8_same_call_twice:
  assumes "valid_call h args var_args"
    and "resolveArgs_h h args var_args = (h1, out1)"
    and "resolveArgs_h h1 args var_args = (h2, out2)"
  shows "(case (out1, out2) of
            (Inr r1, Inr r2) \<Rightarrow>
               r1 \<noteq> r2 \<and> objects h2 ! r1 = objects h2 ! r2
               \<and> resolveArgs (val_arrays h ! address args) (specs_of h var_args)
                  = Inr (objects h2 ! r1)
          | (Inl e1, Inl e2) \<Rightarrow> e1 = e2
          | _ \<Rightarrow> False)"
proof -
  from resolveArgs_h_refines[OF assms(1,2)] obtain m1 where
    p1: "prefix (spec_arrays h) (spec_arrays h1)" and
    p2: "prefix (val_arrays h) (val_arrays h1)" and
    o1: "objects h1 = objects h @ [m1]" and
    r1: "(case resolveArgs (val_arrays h ! address args) (specs_of h var_args) of
           Inl e \<Rightarrow> out1 = Inl e | Inr r \<Rightarrow> out1 = Inr (length (objects h)) \<and> m1 = r)"
    by blast
  note v = valid_call_prefix[OF assms(1) p1 p2]
  from v have v1: "valid_call h1 args var_args" by simp
  from resolveArgs_h_refines[OF v1 assms(3)] obtain m2 where
    o2: "objects h2 = objects h1 @ [m2]" and
    r2: "(case resolveArgs (val_arrays h1 ! address args) (specs_of h1 var_args) of
           Inl e \<Rightarrow> out2 = Inl e | Inr r \<Rightarrow> out2 = Inr (length (objects h1)) \<and> m2 = r)"
    by blast
  have same: "resolveArgs (val_arrays h1 ! address args) (specs_of h1 var_args)
              = resolveArgs (val_arrays h ! address args) (specs_of h var_args)"
    using v by simp
  show ?thesis
  proof (cases "resolveArgs (val_arrays h ! address args) (specs_of h var_args)")
    case (Inl e)
    with r1 r2 same show ?thesis by simp
  next
    case (Inr r)
    with r1 r2 same have "out1 = Inr (length (objects h))" "m1 = r"
      "out2 = Inr (Suc (length (objects h)))" "m2 = r"
      by (simp_all add: o1)
    then show ?thesis using Inr by (simp add: o1 o2 nth_append)
  qed
qed

theorem C8_witness:
  "snd (resolveArgs_h
       \<lparr>spec_arrays = [], val_arrays = [[JNum 1, JNum 2]], objects = []\<rparr>
       (ArgsArray 0) (SpecsRest [StrSpec ''?a'', StrSpec ''?b'', StrSpec ''c''])) = Inr 0
   \<and> snd (resolveArgs_h
         (fst (resolveArgs_h
            \<lparr>spec_arrays = [], val_arrays = [[JNum 1, JNum 2]], objects = []\<rparr>
            (ArgsArray 0) (SpecsRest [StrSpec ''?a'', StrSpec ''?b'', StrSpec ''c''])))
         (ArgsArray 0) (SpecsRest [StrSpec ''?a'', StrSpec ''?b'', StrSpec ''c''])) = Inr 1
   \<and> objects (fst (resolveArgs_h
         (fst (resolveArgs_h
            \<lparr>spec_arrays = [], val_arrays = [[JNum 1, JNum 2]], objects = []\<rparr>
            (ArgsArray 0) (SpecsRest [StrSpec ''?a'', StrSpec ''?b'', StrSpec ''c''])))
         (ArgsArray 0) (SpecsRest [StrSpec ''?a'', StrSpec ''?b'', StrSpec ''c'']))) ! 0
     = objects (fst (resolveArgs_h
         (fst (resolveArgs_h
            \<lparr>spec_arrays = [], val_arrays = [[JNum 1, JNum 2]], objects = []\<rparr>
            (ArgsArray 0) (SpecsRest [StrSpec ''?a'', StrSpec ''?b'', StrSpec ''c''])))
         (ArgsArray 0) (SpecsRest [StrSpec ''?a'', StrSpec ''?b'', StrSpec ''c'']))) ! 1"
proof -
  let ?h = "\<lparr>spec_arrays = [], val_arrays = [[JNum 1, JNum 2]], objects = []\<rparr>"
  let ?v = "SpecsRest [StrSpec ''?a'', StrSpec ''?b'', StrSpec ''c'']"
  let ?c1 = "resolveArgs_h ?h (ArgsArray 0) ?v"
  let ?c2 = "resolveArgs_h (fst ?c1) (ArgsArray 0) ?v"
  have v: "valid_call ?h (ArgsArray 0) ?v" by simp
  have c1: "?c1 = (fst ?c1, snd ?c1)" by simp
  have c2: "?c2 = (fst ?c2, snd ?c2)" by simp
  have e: "snd ?c1 = Inr 0" "snd ?c2 = Inr 1" by code_simp+
  from C8_same_call_twice[OF v c1 c2] e show ?thesis by simp
qed

end
